theory Spec2Isabelle
  imports Complex_Main "HOL-Library.Monad_Syntax"
begin

section \<open>Data model of gobang\_core\<close>

text \<open>
  A board is \<^verbatim>\<open>std::vector<std::vector<int>>\<close>: a list of rows of C++ \<^verbatim>\<open>int\<close>
  cells (0 empty, 1 and 2 the players). Coordinates, colours and the side length
  \<^verbatim>\<open>board_size\<close> are C++ \<^verbatim>\<open>int\<close>; they are modelled as \<open>int\<close>, since every
  value the functions compute from them stays within one step of the board.
  \<^verbatim>\<open>board[x][y]\<close> is \<open>cell board x y\<close>; the source reads it only behind a bounds
  test or inside loops whose ranges stay on a square board of side
  \<^verbatim>\<open>board_size\<close>, which is what \<open>square\<close> states.
\<close>

type_synonym board = "int list list"

definition cell :: "board \<Rightarrow> int \<Rightarrow> int \<Rightarrow> int" where
  "cell board x y = board ! nat x ! nat y"

definition in_board :: "int \<Rightarrow> int \<Rightarrow> int \<Rightarrow> bool" where
  "in_board board_size x y \<longleftrightarrow> x \<ge> 0 \<and> x < board_size \<and> y \<ge> 0 \<and> y < board_size"

definition square :: "board \<Rightarrow> int \<Rightarrow> bool" where
  "square board board_size \<longleftrightarrow>
     int (length board) = board_size \<and> list_all (\<lambda>row. int (length row) = board_size) board"

text \<open>
  \<^verbatim>\<open>new_board[x][y] = color\<close> on a copy of the board (used by \<^verbatim>\<open>place_piece\<close>,
  \<^verbatim>\<open>evaluate_move\<close>, \<^verbatim>\<open>find_winning_move\<close> and \<^verbatim>\<open>mcts_optimize\<close>).
\<close>

definition set_cell :: "board \<Rightarrow> int \<Rightarrow> int \<Rightarrow> int \<Rightarrow> board" where
  "set_cell board x y color = board[nat x := (board ! nat x)[nat y := color]]"

text \<open>
  \<^verbatim>\<open>struct Weights\<close> has eight \<^verbatim>\<open>float\<close> fields. Scores are modelled as \<open>real\<close>:
  rounding, infinities and NaN weights are not modelled. \<open>Weights_zero\<close> is the
  value-initialised \<^verbatim>\<open>Weights{}\<close>.
\<close>

record Weights =
  FIVE :: real
  FOUR :: real
  BLOCKED_FOUR :: real
  THREE :: real
  BLOCKED_THREE :: real
  TWO :: real
  BLOCKED_TWO :: real
  ONE :: real

definition Weights_zero :: Weights where
  "Weights_zero = \<lparr>FIVE = 0, FOUR = 0, BLOCKED_FOUR = 0, THREE = 0, BLOCKED_THREE = 0,
                    TWO = 0, BLOCKED_TWO = 0, ONE = 0\<rparr>"

record GameEndResult =
  is_end :: bool
  winner :: int
  win_line_size :: int
  win_line :: "(int \<times> int) list"

section \<open>validate\_move and place\_piece\<close>

definition validate_move :: "board \<Rightarrow> int \<Rightarrow> int \<Rightarrow> int \<Rightarrow> int \<Rightarrow> bool \<times> string" where
  "validate_move board x y current_player board_size =
     (if x < 0 \<or> x \<ge> board_size \<or> y < 0 \<or> y \<ge> board_size then (False, ''invalid_position'')
      else if cell board x y \<noteq> 0 then (False, ''occupied'')
      else if current_player \<noteq> 1 \<and> current_player \<noteq> 2 then (False, ''invalid_player'')
      else (True, ''success''))"

definition place_piece :: "board \<Rightarrow> int \<Rightarrow> int \<Rightarrow> int \<Rightarrow> int \<Rightarrow> board" where
  "place_piece board x y color board_size = set_cell board x y color"

section \<open>check\_game\_end\<close>

text \<open>
  \<open>for_first v hi body\<close> is \<^verbatim>\<open>for (; v < hi; ++v) { body }\<close> where the body either
  leaves the enclosing function with a value (\<open>Some\<close>) or falls through to the next
  round (\<open>None\<close>). A loop written \<^verbatim>\<open>j <= board_size - win_len\<close> has
  \<open>hi = board_size - win_len + 1\<close>.
\<close>

function for_first :: "int \<Rightarrow> int \<Rightarrow> (int \<Rightarrow> 'a option) \<Rightarrow> 'a option" where
  "for_first v hi body =
     (if v < hi then (case body v of Some r \<Rightarrow> Some r | None \<Rightarrow> for_first (v + 1) hi body)
      else None)"
  by pat_completeness auto
termination
  by (relation "measure (\<lambda>(v, hi, body). nat (hi - v))") auto

declare for_first.simps [simp del]

definition win_len :: int where
  "win_len = 5"

text \<open>
  The innermost loop over \<open>k\<close>, for the window that starts at \<open>(i, j)\<close> and steps by
  \<open>(di, dj)\<close>: the four passes of the source use \<open>(0,1)\<close>, \<open>(1,0)\<close>, \<open>(1,1)\<close> and
  \<open>(1,-1)\<close>. The result is the flag \<^verbatim>\<open>win\<close> and the vector \<^verbatim>\<open>win_line\<close>.
\<close>

function line_loop ::
  "board \<Rightarrow> int \<Rightarrow> int \<Rightarrow> int \<Rightarrow> int \<Rightarrow> int \<Rightarrow> int \<Rightarrow> (int \<times> int) list \<Rightarrow> bool \<times> (int \<times> int) list"
where
  "line_loop board i j di dj color k line =
     (if k < win_len then
        (if cell board (i + k * di) (j + k * dj) \<noteq> color then (False, line)
         else line_loop board i j di dj color (k + 1) (line @ [(i + k * di, j + k * dj)]))
      else (True, line))"
  by pat_completeness auto
termination
  by (relation "measure (\<lambda>(board, i, j, di, dj, color, k, line). nat (win_len - k))") auto

declare line_loop.simps [simp del]

text \<open>The body of the two outer loops of one pass.\<close>

definition check_window :: "board \<Rightarrow> int \<Rightarrow> int \<Rightarrow> int \<Rightarrow> int \<Rightarrow> GameEndResult option" where
  "check_window board i j di dj =
     (let color = cell board i j in
      if color = 0 then None
      else (case line_loop board i j di dj color 0 [] of
              (True, line) \<Rightarrow>
                Some \<lparr>is_end = True, winner = color, win_line_size = win_len, win_line = line\<rparr>
            | (False, line) \<Rightarrow> None))"

definition scan_horizontal :: "board \<Rightarrow> int \<Rightarrow> GameEndResult option" where
  "scan_horizontal board board_size =
     for_first 0 board_size (\<lambda>i.
       for_first 0 (board_size - win_len + 1) (\<lambda>j. check_window board i j 0 1))"

definition scan_vertical :: "board \<Rightarrow> int \<Rightarrow> GameEndResult option" where
  "scan_vertical board board_size =
     for_first 0 board_size (\<lambda>j.
       for_first 0 (board_size - win_len + 1) (\<lambda>i. check_window board i j 1 0))"

definition scan_diag_down_right :: "board \<Rightarrow> int \<Rightarrow> GameEndResult option" where
  "scan_diag_down_right board board_size =
     for_first 0 (board_size - win_len + 1) (\<lambda>i.
       for_first 0 (board_size - win_len + 1) (\<lambda>j. check_window board i j 1 1))"

definition scan_diag_down_left :: "board \<Rightarrow> int \<Rightarrow> GameEndResult option" where
  "scan_diag_down_left board board_size =
     for_first 0 (board_size - win_len + 1) (\<lambda>i.
       for_first (win_len - 1) board_size (\<lambda>j. check_window board i j 1 (- 1)))"

text \<open>The draw test: \<^verbatim>\<open>is_full\<close> stays true iff no cell read is 0.\<close>

definition is_full :: "board \<Rightarrow> int \<Rightarrow> bool" where
  "is_full board board_size \<longleftrightarrow>
     for_first 0 board_size (\<lambda>i.
       for_first 0 board_size (\<lambda>j. if cell board i j = 0 then Some () else None)) = None"

definition check_game_end :: "board \<Rightarrow> int \<Rightarrow> GameEndResult" where
  "check_game_end board board_size =
     (case scan_horizontal board board_size of Some r \<Rightarrow> r | None \<Rightarrow>
      case scan_vertical board board_size of Some r \<Rightarrow> r | None \<Rightarrow>
      case scan_diag_down_right board board_size of Some r \<Rightarrow> r | None \<Rightarrow>
      case scan_diag_down_left board board_size of Some r \<Rightarrow> r | None \<Rightarrow>
      if is_full board board_size
      then \<lparr>is_end = True, winner = 0, win_line_size = 0, win_line = []\<rparr>
      else \<lparr>is_end = False, winner = 0, win_line_size = 0, win_line = []\<rparr>)"

section \<open>find\_winning\_move\<close>

definition find_winning_move :: "board \<Rightarrow> int \<Rightarrow> int \<Rightarrow> int \<times> int" where
  "find_winning_move board color board_size =
     (case for_first 0 board_size (\<lambda>i.
             for_first 0 board_size (\<lambda>j.
               if cell board i j \<noteq> 0 then None
               else (let temp_board = set_cell board i j color;
                         result = check_game_end temp_board board_size
                     in if is_end result \<and> winner result = color then Some (i, j) else None)))
      of Some move \<Rightarrow> move
       | None \<Rightarrow> (- 1, - 1))"

section \<open>check\_line, get\_pattern\_score and evaluate\_move\<close>

text \<open>
  The \<^verbatim>\<open>while\<close> loop of \<^verbatim>\<open>check_line\<close> does not terminate for \<open>dx = dy = 0\<close> on a cell
  of the colour, so it is a partial function: \<open>None\<close> is a run that never returns.
\<close>

partial_function (option) check_line_loop ::
  "board \<Rightarrow> int \<Rightarrow> int \<Rightarrow> int \<Rightarrow> int \<Rightarrow> int \<Rightarrow> int \<Rightarrow> int \<Rightarrow> int option"
where
  "check_line_loop board x y dx dy color board_size count =
     (if x \<ge> 0 \<and> x < board_size \<and> y \<ge> 0 \<and> y < board_size \<and> cell board x y = color
      then check_line_loop board (x + dx) (y + dy) dx dy color board_size (count + 1)
      else Some count)"

definition check_line :: "board \<Rightarrow> int \<Rightarrow> int \<Rightarrow> int \<Rightarrow> int \<Rightarrow> int \<Rightarrow> int \<Rightarrow> int option" where
  "check_line board x y dx dy color board_size =
     check_line_loop board x y dx dy color board_size 0"

definition dirs :: "(int \<times> int) list" where
  "dirs = [(0, 1), (1, 0), (1, 1), (1, - 1)]"

text \<open>One round of the loop over \<^verbatim>\<open>dirs\<close>: the new value of \<^verbatim>\<open>score\<close>.\<close>

definition dir_step ::
  "board \<Rightarrow> int \<Rightarrow> int \<Rightarrow> int \<Rightarrow> Weights \<Rightarrow> int \<Rightarrow> int \<times> int \<Rightarrow> real \<Rightarrow> real option" where
  "dir_step board x y color weights board_size dir score =
     (let opponent = (if color = 1 then 2 else 1); dx = fst dir; dy = snd dir in
      do {
        forward \<leftarrow> check_line board (x + dx) (y + dy) dx dy color board_size;
        backward \<leftarrow> check_line board (x - dx) (y - dy) (- dx) (- dy) color board_size;
        let total = forward + backward + 1;
        let fx = x + (forward + 1) * dx;
        let fy = y + (forward + 1) * dy;
        let bx = x - (backward + 1) * dx;
        let by = y - (backward + 1) * dy;
        let blocked =
          ((fx \<ge> 0 \<and> fx < board_size \<and> fy \<ge> 0 \<and> fy < board_size \<and> cell board fx fy = opponent) \<or>
           (bx \<ge> 0 \<and> bx < board_size \<and> by \<ge> 0 \<and> by < board_size \<and> cell board bx by = opponent));
        Some (if total \<ge> 5 then score + FIVE weights
              else if total = 4 then score + (if blocked then BLOCKED_FOUR weights else FOUR weights)
              else if total = 3 then score + (if blocked then BLOCKED_THREE weights else THREE weights)
              else if total = 2 then score + (if blocked then BLOCKED_TWO weights else TWO weights)
              else if total = 1 then score + ONE weights
              else score)
      })"

definition get_pattern_score ::
  "board \<Rightarrow> int \<Rightarrow> int \<Rightarrow> int \<Rightarrow> Weights \<Rightarrow> int \<Rightarrow> real option" where
  "get_pattern_score board x y color weights board_size =
     fold (\<lambda>dir score. score \<bind> dir_step board x y color weights board_size dir) dirs (Some 0)"

definition evaluate_move ::
  "board \<Rightarrow> int \<Rightarrow> int \<Rightarrow> int \<Rightarrow> Weights \<Rightarrow> int \<Rightarrow> real option" where
  "evaluate_move board x y color weights board_size =
     (let temp_board = set_cell board x y color
      in get_pattern_score temp_board x y color weights board_size)"

section \<open>mcts\_optimize\<close>

definition dx_tab :: "int list" where
  "dx_tab = [- 1, 0, 1, - 1, 1, - 1, 0, 1]"

definition dy_tab :: "int list" where
  "dy_tab = [- 1, - 1, - 1, 0, 0, 1, 1, 1]"

text \<open>The loop over \<open>d\<close> that fills \<^verbatim>\<open>candidates\<close>, after \<^verbatim>\<open>push_back(init_move)\<close>.\<close>

definition candidates_of :: "board \<Rightarrow> int \<times> int \<Rightarrow> int \<Rightarrow> (int \<times> int) list" where
  "candidates_of board init_move board_size =
     fold (\<lambda>d candidates.
             let x = fst init_move + dx_tab ! d; y = snd init_move + dy_tab ! d in
             if x \<ge> 0 \<and> x < board_size \<and> y \<ge> 0 \<and> y < board_size \<and> cell board x y = 0
             then candidates @ [(x, y)] else candidates)
          [0..<8] [init_move]"

text \<open>
  The loop over \<open>iter\<close>: \<^verbatim>\<open>score\<close> after \<^verbatim>\<open>iterations\<close> rounds, each adding
  \<^verbatim>\<open>evaluate_move(temp_board, move, color, Weights{}, board_size)\<close>. A count of
  0 or less runs no round.
\<close>

definition iter_loop :: "board \<Rightarrow> int \<times> int \<Rightarrow> int \<Rightarrow> int \<Rightarrow> int \<Rightarrow> real option" where
  "iter_loop board move color iterations board_size =
     fold (\<lambda>iter score. do {
             s \<leftarrow> score;
             let temp_board = set_cell board (fst move) (snd move) color;
             e \<leftarrow> evaluate_move temp_board (fst move) (snd move) color Weights_zero board_size;
             Some (s + e)
           })
          [0..<nat iterations] (Some 0)"

text \<open>
  One round of the loop over the candidates, on the pair \<^verbatim>\<open>(best_score, best_move)\<close>.
  For \<open>iterations = 0\<close> the quotient \<^verbatim>\<open>score /= iterations\<close> is \<^verbatim>\<open>0.0f / 0\<close>, a NaN,
  and \<^verbatim>\<open>score > best_score\<close> is false.
\<close>

definition candidate_step ::
  "board \<Rightarrow> int \<Rightarrow> int \<Rightarrow> int \<Rightarrow> int \<times> int \<Rightarrow> real \<times> (int \<times> int) \<Rightarrow> (real \<times> (int \<times> int)) option" where
  "candidate_step board color iterations board_size move best =
     do {
       total \<leftarrow> iter_loop board move color iterations board_size;
       let score = total / real_of_int iterations;
       Some (if iterations \<noteq> 0 \<and> score > fst best then (score, move) else best)
     }"

definition mcts_optimize ::
  "board \<Rightarrow> int \<times> int \<Rightarrow> int \<Rightarrow> int \<Rightarrow> int \<Rightarrow> int \<Rightarrow> (int \<times> int) option" where
  "mcts_optimize board init_move color depth iterations board_size =
     map_option snd
       (fold (\<lambda>move best. best \<bind> candidate_step board color iterations board_size move)
             (candidates_of board init_move board_size)
             (Some (- 1000000000, init_move)))"

section \<open>Notions the statements use\<close>

subsection \<open>Early return along a list\<close>

text \<open>
  The first \<open>Some\<close> that \<open>f\<close> yields along a list: what a loop with an early
  \<^verbatim>\<open>return\<close> computes over the values of its counter.
\<close>

fun first_some :: "('a \<Rightarrow> 'b option) \<Rightarrow> 'a list \<Rightarrow> 'b option" where
  "first_some f [] = None"
| "first_some f (x # xs) = (case f x of Some r \<Rightarrow> Some r | None \<Rightarrow> first_some f xs)"

subsection \<open>Windows and outcomes\<close>

text \<open>
  The five positions of the window that starts at \<open>(i, j)\<close> and steps by \<open>d\<close>, in
  scan order; a window wins when its five cells are equal and not 0, and
  \<open>colour_at\<close> is the colour of its first cell.
\<close>

definition window :: "int \<Rightarrow> int \<Rightarrow> int \<times> int \<Rightarrow> (int \<times> int) list" where
  "window i j d = map (\<lambda>k. (i + k * fst d, j + k * snd d)) [0..4]"

definition winning :: "board \<Rightarrow> (int \<times> int) list \<Rightarrow> bool" where
  "winning board ps \<longleftrightarrow>
     cell board (fst (hd ps)) (snd (hd ps)) \<noteq> 0 \<and>
     list_all (\<lambda>p. cell board (fst p) (snd p) = cell board (fst (hd ps)) (snd (hd ps))) ps"

definition colour_at :: "board \<Rightarrow> (int \<times> int) list \<Rightarrow> int" where
  "colour_at board ps = cell board (fst (hd ps)) (snd (hd ps))"

text \<open>The three outcomes: a win with its colour and line, a draw, play goes on.\<close>

definition Win :: "int \<Rightarrow> (int \<times> int) list \<Rightarrow> GameEndResult" where
  "Win c line = \<lparr>is_end = True, winner = c, win_line_size = 5, win_line = line\<rparr>"

definition Draw :: GameEndResult where
  "Draw = \<lparr>is_end = True, winner = 0, win_line_size = 0, win_line = []\<rparr>"

definition Ongoing :: GameEndResult where
  "Ongoing = \<lparr>is_end = False, winner = 0, win_line_size = 0, win_line = []\<rparr>"

definition win_result :: "board \<Rightarrow> (int \<times> int) list \<Rightarrow> GameEndResult" where
  "win_result board ps = Win (colour_at board ps) ps"

text \<open>
  The windows of the four passes, each in its scan order, and all of them in the
  priority of the passes.
\<close>

definition horizontal_windows :: "int \<Rightarrow> (int \<times> int) list list" where
  "horizontal_windows n = concat (map (\<lambda>i. map (\<lambda>j. window i j (0, 1)) [0..n - 5]) [0..n - 1])"

definition vertical_windows :: "int \<Rightarrow> (int \<times> int) list list" where
  "vertical_windows n = concat (map (\<lambda>j. map (\<lambda>i. window i j (1, 0)) [0..n - 5]) [0..n - 1])"

definition down_right_windows :: "int \<Rightarrow> (int \<times> int) list list" where
  "down_right_windows n = concat (map (\<lambda>i. map (\<lambda>j. window i j (1, 1)) [0..n - 5]) [0..n - 5])"

definition down_left_windows :: "int \<Rightarrow> (int \<times> int) list list" where
  "down_left_windows n = concat (map (\<lambda>i. map (\<lambda>j. window i j (1, - 1)) [4..n - 1]) [0..n - 5])"

definition all_windows :: "int \<Rightarrow> (int \<times> int) list list" where
  "all_windows n = horizontal_windows n @ vertical_windows n @ down_right_windows n @ down_left_windows n"

text \<open>
  Five in a row of colour \<open>c\<close> along one of the four axes: five cells from
  \<open>(x, y)\<close> in steps of \<open>d\<close>, all on the board and all of colour \<open>c\<close>. The
  start ranges over the whole board, whatever the loops of the source visit.
\<close>

definition five_at :: "board \<Rightarrow> int \<Rightarrow> int \<Rightarrow> int \<Rightarrow> int \<Rightarrow> int \<times> int \<Rightarrow> bool" where
  "five_at board n c x y d \<longleftrightarrow>
     list_all (\<lambda>k. in_board n (x + k * fst d) (y + k * snd d) \<and>
                   cell board (x + k * fst d) (y + k * snd d) = c) [0..4]"

definition five_in_row :: "board \<Rightarrow> int \<Rightarrow> int \<Rightarrow> bool" where
  "five_in_row board n c \<longleftrightarrow>
     list_ex (\<lambda>x. list_ex (\<lambda>y. list_ex (five_at board n c x y) dirs) [0..n - 1]) [0..n - 1]"

text \<open>Every cell is 0, 1 or 2; no cell is 0.\<close>

definition cells_valid :: "board \<Rightarrow> bool" where
  "cells_valid board \<longleftrightarrow> list_all (list_all (\<lambda>c. c = 0 \<or> c = 1 \<or> c = 2)) board"

definition filled :: "board \<Rightarrow> bool" where
  "filled board \<longleftrightarrow> list_all (list_all (\<lambda>c. c \<noteq> 0)) board"

subsection \<open>Winning moves\<close>

text \<open>
  The cells in row-major order; an empty cell wins for \<open>c\<close> when the game on the
  board with \<open>c\<close> placed there is ended with winner \<open>c\<close>.
\<close>

definition row_major :: "int \<Rightarrow> (int \<times> int) list" where
  "row_major n = concat (map (\<lambda>i. map (\<lambda>j. (i, j)) [0..n - 1]) [0..n - 1])"

definition wins_at :: "board \<Rightarrow> int \<Rightarrow> int \<Rightarrow> int \<times> int \<Rightarrow> bool" where
  "wins_at board c n p \<longleftrightarrow>
     cell board (fst p) (snd p) = 0 \<and>
     is_end (check_game_end (set_cell board (fst p) (snd p) c) n) \<and>
     winner (check_game_end (set_cell board (fst p) (snd p) c) n) = c"

subsection \<open>Runs and their weights\<close>

text \<open>
  The number of consecutive cells of colour \<open>c\<close> strictly beyond \<open>(x, y)\<close> in
  direction \<open>(dx, dy)\<close>: the steps \<open>k = 1, 2, \<dots>\<close> are taken while the cell
  \<open>k\<close> steps away is on the board and holds \<open>c\<close>.
\<close>

definition run_length :: "board \<Rightarrow> int \<Rightarrow> int \<Rightarrow> int \<Rightarrow> int \<Rightarrow> int \<Rightarrow> int \<Rightarrow> int" where
  "run_length board n c x y dx dy =
     int (length (takeWhile (\<lambda>k. in_board n (x + k * dx) (y + k * dy) \<and>
                                  cell board (x + k * dx) (y + k * dy) = c) [1..n]))"

text \<open>An end is blocked when the cell there is on the board and holds the other colour.\<close>

definition blocked_at :: "board \<Rightarrow> int \<Rightarrow> int \<Rightarrow> int \<Rightarrow> int \<Rightarrow> bool" where
  "blocked_at board n c x y \<longleftrightarrow> in_board n x y \<and> cell board x y = 3 - c"

text \<open>The weight for a run of length \<open>len\<close>, and the weight of one axis through \<open>(x, y)\<close>.\<close>

definition pattern_weight :: "Weights \<Rightarrow> int \<Rightarrow> bool \<Rightarrow> real" where
  "pattern_weight w len blocked =
     (if len \<ge> 5 then FIVE w
      else if len = 4 then (if blocked then BLOCKED_FOUR w else FOUR w)
      else if len = 3 then (if blocked then BLOCKED_THREE w else THREE w)
      else if len = 2 then (if blocked then BLOCKED_TWO w else TWO w)
      else if len = 1 then ONE w
      else 0)"

definition axis_weight :: "Weights \<Rightarrow> board \<Rightarrow> int \<Rightarrow> int \<Rightarrow> int \<Rightarrow> int \<Rightarrow> int \<times> int \<Rightarrow> real" where
  "axis_weight w board n c x y d =
     (let forward = run_length board n c x y (fst d) (snd d);
          backward = run_length board n c x y (- fst d) (- snd d);
          blocked = (blocked_at board n c (x + (forward + 1) * fst d) (y + (forward + 1) * snd d) \<or>
                     blocked_at board n c (x - (backward + 1) * fst d) (y - (backward + 1) * snd d))
      in pattern_weight w (forward + backward + 1) blocked)"

subsection \<open>The optimizer of the specification\<close>

text \<open>
  The optimizer as the specification words it, with a weights argument: the
  candidates are the seed and then its neighbours in the fixed offset order, each
  neighbour kept only if it is on the board and empty; a candidate's score is the
  mean of \<open>reps\<close> evaluations with the weights given, an evaluation being the sum
  of the four axis weights on the board with the colour placed; the result is the
  earliest candidate whose score no candidate exceeds.
\<close>

definition neighbour_offsets :: "(int \<times> int) list" where
  "neighbour_offsets = [(- 1, - 1), (0, - 1), (1, - 1), (- 1, 0), (1, 0), (- 1, 1), (0, 1), (1, 1)]"

definition candidate_list :: "board \<Rightarrow> int \<times> int \<Rightarrow> int \<Rightarrow> (int \<times> int) list" where
  "candidate_list board seed n =
     seed # filter (\<lambda>p. in_board n (fst p) (snd p) \<and> cell board (fst p) (snd p) = 0)
                   (map (\<lambda>d. (fst seed + fst d, snd seed + snd d)) neighbour_offsets)"

definition evaluate_spec :: "board \<Rightarrow> int \<times> int \<Rightarrow> int \<Rightarrow> Weights \<Rightarrow> int \<Rightarrow> real" where
  "evaluate_spec board m c w n =
     (\<Sum>d\<leftarrow>dirs. axis_weight w (set_cell board (fst m) (snd m) c) n c (fst m) (snd m) d)"

definition mean_score :: "board \<Rightarrow> int \<times> int \<Rightarrow> int \<Rightarrow> Weights \<Rightarrow> int \<Rightarrow> int \<Rightarrow> real" where
  "mean_score board m c w reps n =
     (\<Sum>i\<leftarrow>[0..<nat reps]. evaluate_spec board m c w n) / real_of_int reps"

definition optimize_spec :: "board \<Rightarrow> int \<times> int \<Rightarrow> int \<Rightarrow> Weights \<Rightarrow> int \<Rightarrow> int \<Rightarrow> int \<times> int" where
  "optimize_spec board seed c w reps n =
     (let cs = candidate_list board seed n in
      hd (filter (\<lambda>m. list_all (\<lambda>m'. mean_score board m' c w reps n \<le> mean_score board m c w reps n) cs) cs))"

section \<open>Example boards and weights\<close>

definition empty_board :: "nat \<Rightarrow> board" where
  "empty_board n = replicate n (replicate n 0)"

definition board5 :: board where
  "board5 = [[1, 2, 1, 2, 1],
             [1, 2, 1, 2, 1],
             [2, 1, 2, 1, 2],
             [2, 1, 2, 1, 2],
             [1, 2, 1, 2, 1]]"

definition board6 :: board where
  "board6 = [[0, 0, 0, 0, 0, 1],
             [0, 0, 0, 0, 0, 1],
             [0, 0, 0, 0, 0, 1],
             [0, 0, 0, 0, 0, 1],
             [0, 0, 0, 0, 0, 1],
             [2, 2, 2, 2, 2, 2]]"

definition board_dl :: board where
  "board_dl = [[0, 0, 0, 0, 1, 1],
               [0, 0, 0, 1, 1, 0],
               [0, 0, 1, 1, 0, 0],
               [0, 1, 1, 0, 0, 0],
               [1, 1, 0, 0, 0, 0],
               [0, 0, 0, 0, 0, 0]]"

definition board_three :: board where
  "board_three = [[0, 0, 0, 0, 0],
                  [0, 1, 1, 0, 2],
                  [0, 0, 0, 0, 0],
                  [0, 0, 0, 0, 0],
                  [0, 0, 0, 0, 0]]"

definition board_two :: board where
  "board_two = [[1, 0, 0, 0, 0],
                [0, 0, 0, 0, 0],
                [0, 0, 0, 0, 0],
                [0, 0, 0, 0, 0],
                [0, 0, 0, 0, 0]]"

definition board_fours :: board where
  "board_fours = [[2, 2, 2, 2, 0],
                  [1, 1, 1, 1, 0],
                  [0, 0, 0, 0, 0],
                  [0, 0, 0, 0, 0],
                  [0, 0, 0, 0, 0]]"

definition board_open_four :: board where
  "board_open_four =
     (replicate 7 (replicate 15 0)) @
     [[0, 0, 0, 0, 1, 1, 1, 1, 0, 0, 0, 0, 0, 0, 0]] @
     (replicate 7 (replicate 15 0))"

definition weights_ex :: Weights where
  "weights_ex = \<lparr>FIVE = 100000, FOUR = 10000, BLOCKED_FOUR = 1000, THREE = 1000,
                   BLOCKED_THREE = 100, TWO = 100, BLOCKED_TWO = 10, ONE = 1\<rparr>"

section \<open>Move validation\<close>

lemma cell_set_cell_same:
  assumes "square board n" and "in_board n x y"
  shows "cell (set_cell board x y c) x y = c"
  using assms by (auto simp: cell_def set_cell_def square_def in_board_def list_all_iff)

lemma cell_set_cell_other:
  assumes "in_board n x y" and "in_board n x' y'" and "(x', y') \<noteq> (x, y)"
  shows "cell (set_cell board x y c) x' y' = cell board x' y'"
proof (cases "x' = x")
  case True
  with assms have "nat y' \<noteq> nat y" by (auto simp: in_board_def)
  with True show ?thesis
    by (cases "nat x < length board") (simp_all add: cell_def set_cell_def not_less list_update_beyond)
next
  case False
  with assms have "nat x' \<noteq> nat x" by (auto simp: in_board_def)
  then show ?thesis by (simp add: cell_def set_cell_def)
qed

lemma square_set_cell:
  assumes "square board n"
  shows "square (set_cell board x y c) n"
proof (cases "nat x < length board")
  case True
  then have "board ! nat x \<in> set board" by simp
  with assms have "int (length ((board ! nat x)[nat y := c])) = n"
    by (simp add: square_def list_all_iff)
  moreover have "set (set_cell board x y c) \<subseteq> insert ((board ! nat x)[nat y := c]) (set board)"
    unfolding set_cell_def by (rule set_update_subset_insert)
  ultimately show ?thesis
    using assms by (auto simp: square_def list_all_iff set_cell_def)
next
  case False
  then show ?thesis using assms by (simp add: set_cell_def not_less list_update_beyond)
qed

text \<open>
  C7. \<^verbatim>\<open>validate_move\<close> succeeds exactly when the position is on the board, the
  cell there is 0 and the player is 1 or 2. Otherwise it returns \<open>False\<close> with one
  of three reasons, decided in the order bounds, occupancy, player:
  \<^verbatim>\<open>invalid_position\<close> for any position off the board, \<^verbatim>\<open>occupied\<close> for any
  non-empty cell on the board, \<^verbatim>\<open>invalid_player\<close> only when the first two tests pass.
\<close>

theorem validate_move_reasons:
  "(fst (validate_move board x y p n) \<longleftrightarrow> in_board n x y \<and> cell board x y = 0 \<and> p \<in> {1, 2}) \<and>
   validate_move board x y p n =
     (if \<not> in_board n x y then (False, ''invalid_position'')
      else if cell board x y \<noteq> 0 then (False, ''occupied'')
      else if p \<notin> {1, 2} then (False, ''invalid_player'')
      else (True, ''success''))"
  by (auto simp: validate_move_def in_board_def)

theorem validate_move_reasons_witness:
  "validate_move [[0, 1], [0, 0]] 5 0 7 2 = (False, ''invalid_position'') \<and>
   validate_move [[0, 1], [0, 0]] 0 1 7 2 = (False, ''occupied'') \<and>
   validate_move [[0, 1], [0, 0]] 0 0 7 2 = (False, ''invalid_player'') \<and>
   validate_move [[0, 1], [0, 0]] 1 1 2 2 = (True, ''success'')"
  using validate_move_reasons [of "[[0, 1], [0, 0]]" 5 0 7 2]
        validate_move_reasons [of "[[0, 1], [0, 0]]" 0 1 7 2]
        validate_move_reasons [of "[[0, 1], [0, 0]]" 0 0 7 2]
        validate_move_reasons [of "[[0, 1], [0, 0]]" 1 1 2 2]
  by (simp add: in_board_def cell_def)

text \<open>
  C8. On a square board and for a position on it, \<^verbatim>\<open>place_piece\<close> returns a board
  that holds the colour at the position and the old value at every other position
  of the board; the result is again a square board of the same side. The argument
  is a \<^verbatim>\<open>const\<close> reference that the function copies before writing, which the model
  renders by returning a new value.
\<close>

theorem place_piece_frame:
  assumes "square board n" and "in_board n x y"
  shows "cell (place_piece board x y c n) x y = c \<and>
         (\<forall>x' y'. in_board n x' y' \<and> (x', y') \<noteq> (x, y) \<longrightarrow>
            cell (place_piece board x y c n) x' y' = cell board x' y') \<and>
         square (place_piece board x y c n) n"
  using assms
  by (auto simp: place_piece_def cell_set_cell_same square_set_cell
      intro: cell_set_cell_other)

theorem place_piece_frame_witness:
  "square [[0, 1], [0, 0]] 2 \<and> in_board 2 1 0 \<and>
   cell (place_piece [[0, 1], [0, 0]] 1 0 2 2) 1 0 = 2 \<and>
   cell (place_piece [[0, 1], [0, 0]] 1 0 2 2) 0 1 = cell [[0, 1], [0, 0]] 0 1"
proof -
  have h1: "square [[0, 1], [0, 0]] 2" by (simp add: square_def)
  have h2: "in_board 2 1 0" by (simp add: in_board_def)
  have h3: "in_board 2 0 1 \<and> ((0::int), (1::int)) \<noteq> (1, 0)" by (simp add: in_board_def)
  from place_piece_frame [OF h1 h2, of 2] h3 h1 h2 show ?thesis by blast
qed

section \<open>Loops with an early return\<close>

lemma for_first_upto: "for_first lo hi f = first_some f [lo..hi - 1]"
proof (induction lo hi f rule: for_first.induct)
  case (1 v hi body)
  show ?case
  proof (cases "v < hi")
    case True
    then have "[v..hi - 1] = v # [v + 1..hi - 1]" by (simp add: upto_rec1)
    with True 1 show ?thesis
      by (simp add: for_first.simps [of v] split: option.splits)
  next
    case False
    then show ?thesis by (simp add: for_first.simps [of v])
  qed
qed

lemma first_some_append:
  "first_some f (xs @ ys) = (case first_some f xs of Some r \<Rightarrow> Some r | None \<Rightarrow> first_some f ys)"
  by (induction xs) (auto split: option.splits)

lemma first_some_map: "first_some f (map g xs) = first_some (\<lambda>x. f (g x)) xs"
  by (induction xs) (auto split: option.splits)

lemma first_some_concat:
  "first_some f (concat xss) = first_some (first_some f) xss"
  by (induction xss) (auto simp: first_some_append split: option.splits)

lemma first_some_cong: "(\<And>x. x \<in> set xs \<Longrightarrow> f x = g x) \<Longrightarrow> first_some f xs = first_some g xs"
  by (induction xs) (auto split: option.splits)

lemma first_some_find:
  "first_some (\<lambda>x. if P x then Some (g x) else None) xs = map_option g (find P xs)"
  by (induction xs) auto

lemma first_some_None: "first_some f xs = None \<longleftrightarrow> (\<forall>x \<in> set xs. f x = None)"
  by (induction xs) (auto split: option.splits)

section \<open>The win detector\<close>

lemma upto_0_4: "[0..4::int] = [0, 1, 2, 3, 4]"
  by (simp add: upto.simps)

lemma check_window_eq:
  "check_window board i j di dj =
     (if winning board (window i j (di, dj)) then Some (win_result board (window i j (di, dj))) else None)"
  by (simp add: check_window_def line_loop.simps win_len_def Let_def winning_def window_def
      win_result_def Win_def colour_at_def upto_0_4)

lemma pass_eq:
  "for_first a b (\<lambda>u. for_first c d (\<lambda>v. if P (w u v) then Some (g (w u v)) else None)) =
   map_option g (find P (concat (map (\<lambda>u. map (\<lambda>v. w u v) [c..d - 1]) [a..b - 1])))"
  by (simp add: for_first_upto first_some_concat first_some_map flip: first_some_find)

lemma scan_horizontal_eq:
  "scan_horizontal board n = map_option (win_result board) (find (winning board) (horizontal_windows n))"
  using pass_eq [of 0 n 0 "n - 5 + 1" "winning board" "\<lambda>i j. window i j (0, 1)" "win_result board"]
  by (simp add: scan_horizontal_def check_window_eq win_len_def horizontal_windows_def)

lemma scan_vertical_eq:
  "scan_vertical board n = map_option (win_result board) (find (winning board) (vertical_windows n))"
  using pass_eq [of 0 n 0 "n - 5 + 1" "winning board" "\<lambda>j i. window i j (1, 0)" "win_result board"]
  by (simp add: scan_vertical_def check_window_eq win_len_def vertical_windows_def)

lemma scan_diag_down_right_eq:
  "scan_diag_down_right board n =
     map_option (win_result board) (find (winning board) (down_right_windows n))"
  using pass_eq [of 0 "n - 5 + 1" 0 "n - 5 + 1" "winning board" "\<lambda>i j. window i j (1, 1)" "win_result board"]
  by (simp add: scan_diag_down_right_def check_window_eq win_len_def down_right_windows_def)

lemma scan_diag_down_left_eq:
  "scan_diag_down_left board n =
     map_option (win_result board) (find (winning board) (down_left_windows n))"
  using pass_eq [of 0 "n - 5 + 1" 4 n "winning board" "\<lambda>i j. window i j (1, - 1)" "win_result board"]
  by (simp add: scan_diag_down_left_def check_window_eq win_len_def down_left_windows_def)

lemma find_append:
  "find P (xs @ ys) = (case find P xs of Some x \<Rightarrow> Some x | None \<Rightarrow> find P ys)"
  by (induction xs) auto

lemma check_game_end_eq:
  "check_game_end board n =
     (case find (winning board) (all_windows n) of
        Some ps \<Rightarrow> win_result board ps
      | None \<Rightarrow> if is_full board n then Draw else Ongoing)"
  by (simp add: check_game_end_def scan_horizontal_eq scan_vertical_eq scan_diag_down_right_eq
      scan_diag_down_left_eq all_windows_def find_append Draw_def Ongoing_def
      split: option.splits)

lemma find_SomeD: "find P xs = Some x \<Longrightarrow> P x \<and> x \<in> set xs"
  by (induction xs) (auto split: if_splits)

text \<open>
  C3. \<^verbatim>\<open>check_game_end\<close> reports the first winning window of \<open>all_windows\<close>:
  horizontal windows (row ascending, then start column ascending), then vertical,
  then down-right, then down-left ones. The result is a win with the colour of
  that window and its five positions in scan order, so a longer run is reported by
  its first winning sub-window; with no winning window it is a draw or play goes
  on. Whenever some horizontal window wins, the line reported is the first winning
  horizontal window, whatever vertical fives the board holds.
\<close>

theorem check_game_end_scan_priority:
  "(case find (winning board) (all_windows n) of
      Some ps \<Rightarrow> check_game_end board n = Win (colour_at board ps) ps
    | None \<Rightarrow> check_game_end board n = (if is_full board n then Draw else Ongoing)) \<and>
   (list_ex (winning board) (horizontal_windows n) \<longrightarrow>
      find (winning board) (horizontal_windows n) = Some (win_line (check_game_end board n)))"
proof -
  have "find (winning board) (horizontal_windows n) = Some (win_line (check_game_end board n))"
    if "list_ex (winning board) (horizontal_windows n)"
  proof -
    from that obtain ps where "find (winning board) (horizontal_windows n) = Some ps"
      by (cases "find (winning board) (horizontal_windows n)") (auto simp: find_None_iff list_ex_iff)
    then show ?thesis
      by (simp add: check_game_end_eq all_windows_def find_append win_result_def Win_def colour_at_def)
  qed
  then show ?thesis
    by (simp add: check_game_end_eq win_result_def Win_def colour_at_def split: option.splits)
qed

theorem check_game_end_scan_priority_witness:
  "list_ex (winning board6) (horizontal_windows 6) \<and>
   list_ex (winning board6) (vertical_windows 6) \<and>
   check_game_end board6 6 = Win 2 [(5, 0), (5, 1), (5, 2), (5, 3), (5, 4)]"
proof -
  have h: "list_ex (winning board6) (horizontal_windows 6)" by code_simp
  have v: "list_ex (winning board6) (vertical_windows 6)" by code_simp
  have f: "find (winning board6) (all_windows 6) = Some [(5, 0), (5, 1), (5, 2), (5, 3), (5, 4)]"
    by code_simp
  have c: "colour_at board6 [(5, 0), (5, 1), (5, 2), (5, 3), (5, 4)] = 2" by code_simp
  from check_game_end_scan_priority [of board6 6] h v f c show ?thesis by simp
qed

lemma is_full_iff:
  "is_full board n \<longleftrightarrow> (\<forall>i j. 0 \<le> i \<and> i < n \<and> 0 \<le> j \<and> j < n \<longrightarrow> cell board i j \<noteq> 0)"
  by (auto simp: is_full_def for_first_upto first_some_None)

lemma square_cells:
  assumes "square board n"
  shows "(\<forall>i j. 0 \<le> i \<and> i < n \<and> 0 \<le> j \<and> j < n \<longrightarrow> P (cell board i j)) \<longleftrightarrow>
         list_all (list_all P) board"
proof
  assume h: "\<forall>i j. 0 \<le> i \<and> i < n \<and> 0 \<le> j \<and> j < n \<longrightarrow> P (cell board i j)"
  have "P c" if "row \<in> set board" and "c \<in> set row" for row c
  proof -
    from that obtain a where a: "a < length board" "board ! a = row" by (auto simp: in_set_conv_nth)
    from that obtain b where b: "b < length row" "row ! b = c" by (auto simp: in_set_conv_nth)
    from assms that have "int (length row) = n" "int (length board) = n"
      by (auto simp: square_def list_all_iff)
    with a b h have "P (cell board (int a) (int b))" by auto
    with a b show ?thesis by (simp add: cell_def)
  qed
  then show "list_all (list_all P) board" by (auto simp: list_all_iff)
next
  assume h: "list_all (list_all P) board"
  show "\<forall>i j. 0 \<le> i \<and> i < n \<and> 0 \<le> j \<and> j < n \<longrightarrow> P (cell board i j)"
  proof (intro allI impI)
    fix i j assume ij: "0 \<le> i \<and> i < n \<and> 0 \<le> j \<and> j < n"
    with assms have a: "nat i < length board" by (auto simp: square_def)
    then have r: "board ! nat i \<in> set board" by simp
    with assms ij have "nat j < length (board ! nat i)" by (auto simp: square_def list_all_iff)
    then have "board ! nat i ! nat j \<in> set (board ! nat i)" by simp
    with h r show "P (cell board i j)" by (auto simp: list_all_iff cell_def)
  qed
qed

lemma winning_window:
  "winning board (window i j d) \<longleftrightarrow>
     cell board i j \<noteq> 0 \<and>
     list_all (\<lambda>k. cell board (i + k * fst d) (j + k * snd d) = cell board i j) [0..4]"
  by (simp add: winning_def window_def upto_0_4)

lemma in_concat_map_map:
  "ps \<in> set (concat (map (\<lambda>u. map (\<lambda>v. w u v) vs) us)) \<longleftrightarrow> (\<exists>u \<in> set us. \<exists>v \<in> set vs. ps = w u v)"
  by (induction us) auto

lemma in_all_windows:
  "ps \<in> set (all_windows n) \<longleftrightarrow>
     (\<exists>i j d. d \<in> set dirs \<and> in_board n i j \<and> in_board n (i + 4 * fst d) (j + 4 * snd d) \<and>
        ps = window i j d)"
  (is "?L \<longleftrightarrow> ?R")
proof
  assume ?L
  then consider "ps \<in> set (horizontal_windows n)" | "ps \<in> set (vertical_windows n)"
    | "ps \<in> set (down_right_windows n)" | "ps \<in> set (down_left_windows n)"
    by (auto simp: all_windows_def)
  then show ?R
  proof cases
    case 1
    then obtain i j where "0 \<le> i \<and> i \<le> n - 1 \<and> 0 \<le> j \<and> j \<le> n - 5 \<and> ps = window i j (0, 1)"
      unfolding horizontal_windows_def in_concat_map_map by auto
    then show ?thesis
      by (intro exI [of _ i] exI [of _ j] exI [of _ "(0, 1)"]) (simp add: dirs_def in_board_def)
  next
    case 2
    then obtain i j where "0 \<le> i \<and> i \<le> n - 5 \<and> 0 \<le> j \<and> j \<le> n - 1 \<and> ps = window i j (1, 0)"
      unfolding vertical_windows_def in_concat_map_map by auto
    then show ?thesis
      by (intro exI [of _ i] exI [of _ j] exI [of _ "(1, 0)"]) (simp add: dirs_def in_board_def)
  next
    case 3
    then obtain i j where "0 \<le> i \<and> i \<le> n - 5 \<and> 0 \<le> j \<and> j \<le> n - 5 \<and> ps = window i j (1, 1)"
      unfolding down_right_windows_def in_concat_map_map by auto
    then show ?thesis
      by (intro exI [of _ i] exI [of _ j] exI [of _ "(1, 1)"]) (simp add: dirs_def in_board_def)
  next
    case 4
    then obtain i j where "0 \<le> i \<and> i \<le> n - 5 \<and> 4 \<le> j \<and> j \<le> n - 1 \<and> ps = window i j (1, - 1)"
      unfolding down_left_windows_def in_concat_map_map by auto
    then show ?thesis
      by (intro exI [of _ i] exI [of _ j] exI [of _ "(1, - 1)"]) (simp add: dirs_def in_board_def)
  qed
next
  assume ?R
  then obtain i j d where d: "d \<in> set dirs" and a: "in_board n i j"
    and b: "in_board n (i + 4 * fst d) (j + 4 * snd d)" and ps: "ps = window i j d"
    by blast
  from d consider "d = (0, 1)" | "d = (1, 0)" | "d = (1, 1)" | "d = (1, - 1)"
    by (auto simp: dirs_def)
  then show ?L
  proof cases
    case 1
    with a b ps have "ps \<in> set (horizontal_windows n)"
      unfolding horizontal_windows_def in_concat_map_map
      by (intro bexI [of _ i] bexI [of _ j]) (simp_all add: in_board_def)
    then show ?thesis by (simp add: all_windows_def)
  next
    case 2
    with a b ps have "ps \<in> set (vertical_windows n)"
      unfolding vertical_windows_def in_concat_map_map
      by (intro bexI [of _ i] bexI [of _ j]) (simp_all add: in_board_def)
    then show ?thesis by (simp add: all_windows_def)
  next
    case 3
    with a b ps have "ps \<in> set (down_right_windows n)"
      unfolding down_right_windows_def in_concat_map_map
      by (intro bexI [of _ i] bexI [of _ j]) (simp_all add: in_board_def)
    then show ?thesis by (simp add: all_windows_def)
  next
    case 4
    with a b ps have "ps \<in> set (down_left_windows n)"
      unfolding down_left_windows_def in_concat_map_map
      by (intro bexI [of _ i] bexI [of _ j]) (simp_all add: in_board_def)
    then show ?thesis by (simp add: all_windows_def)
  qed
qed

lemma colour_at_window: "colour_at board (window i j d) = cell board i j"
  by (simp add: colour_at_def window_def upto_0_4)

lemma five_at_in_board: "five_at board n c x y d \<Longrightarrow> in_board n x y"
  by (simp add: five_at_def upto_0_4)

lemma five_in_row_iff:
  "five_in_row board n c \<longleftrightarrow> (\<exists>x y d. d \<in> set dirs \<and> five_at board n c x y d)"
proof
  assume "five_in_row board n c"
  then obtain x y d where "d \<in> set dirs" "five_at board n c x y d"
    by (auto simp: five_in_row_def list_ex_iff)
  then show "\<exists>x y d. d \<in> set dirs \<and> five_at board n c x y d" by blast
next
  assume "\<exists>x y d. d \<in> set dirs \<and> five_at board n c x y d"
  then obtain x y d where d: "d \<in> set dirs" and f: "five_at board n c x y d" by blast
  from f have "in_board n x y" by (rule five_at_in_board)
  then have "x \<in> set [0..n - 1]" "y \<in> set [0..n - 1]" by (simp_all add: in_board_def)
  with d f show "five_in_row board n c"
    unfolding five_in_row_def list_ex_iff by blast
qed

lemma five_at_iff:
  assumes "d \<in> set dirs"
  shows "five_at board n c x y d \<and> c \<noteq> 0 \<longleftrightarrow>
         in_board n x y \<and> in_board n (x + 4 * fst d) (y + 4 * snd d) \<and>
         winning board (window x y d) \<and> colour_at board (window x y d) = c"
  using assms
  by (auto simp: five_at_def winning_window colour_at_window upto_0_4 in_board_def dirs_def)

lemma winning_colour_iff:
  "(\<exists>ps \<in> set (all_windows n). winning board ps \<and> colour_at board ps = c) \<longleftrightarrow>
     c \<noteq> 0 \<and> five_in_row board n c"
proof
  assume "\<exists>ps \<in> set (all_windows n). winning board ps \<and> colour_at board ps = c"
  then obtain ps where "ps \<in> set (all_windows n)" and w: "winning board ps" "colour_at board ps = c"
    by blast
  then obtain i j d where d: "d \<in> set dirs" and "in_board n i j"
    "in_board n (i + 4 * fst d) (j + 4 * snd d)" "ps = window i j d"
    unfolding in_all_windows by blast
  with w have "five_at board n c i j d \<and> c \<noteq> 0"
    using five_at_iff [OF d, of board n c i j] by simp
  with d show "c \<noteq> 0 \<and> five_in_row board n c"
    unfolding five_in_row_iff by blast
next
  assume a: "c \<noteq> 0 \<and> five_in_row board n c"
  then obtain x y d where d: "d \<in> set dirs" and f: "five_at board n c x y d"
    unfolding five_in_row_iff by blast
  with a have *: "in_board n x y \<and> in_board n (x + 4 * fst d) (y + 4 * snd d) \<and>
      winning board (window x y d) \<and> colour_at board (window x y d) = c"
    using five_at_iff [OF d, of board n c x y] by simp
  with d have "window x y d \<in> set (all_windows n)"
    unfolding in_all_windows by blast
  with * show "\<exists>ps \<in> set (all_windows n). winning board ps \<and> colour_at board ps = c"
    by blast
qed

text \<open>
  C4. On a square board with cells in \<open>{0, 1, 2}\<close>, \<^verbatim>\<open>check_game_end\<close> ends the game
  with winner 0 (a draw) exactly when every cell is nonzero and neither colour has
  five in a row along any of the four axes, and leaves it open (not ended) exactly
  when some cell is 0 and neither colour has five in a row.
\<close>

theorem check_game_end_draw_ongoing:
  assumes "square board n" and "cells_valid board"
  shows "(is_end (check_game_end board n) \<and> winner (check_game_end board n) = 0 \<longleftrightarrow>
            filled board \<and> \<not> five_in_row board n 1 \<and> \<not> five_in_row board n 2) \<and>
         (\<not> is_end (check_game_end board n) \<longleftrightarrow>
            \<not> filled board \<and> \<not> five_in_row board n 1 \<and> \<not> five_in_row board n 2)"
proof (cases "find (winning board) (all_windows n)")
  case None
  then have "\<not> (\<exists>ps \<in> set (all_windows n). winning board ps \<and> colour_at board ps = c)" for c
    by (auto simp: find_None_iff)
  then have "c = 0 \<or> \<not> five_in_row board n c" for c
    unfolding winning_colour_iff by simp
  from this [of 1] this [of 2] have no: "\<not> five_in_row board n 1" "\<not> five_in_row board n 2"
    by simp_all
  have "is_full board n \<longleftrightarrow> filled board"
    unfolding is_full_iff filled_def by (rule square_cells [OF assms(1)])
  with None no show ?thesis
    by (simp add: check_game_end_eq Draw_def Ongoing_def)
next
  case (Some ps)
  then have w: "winning board ps" and m: "ps \<in> set (all_windows n)"
    by (simp_all add: find_SomeD)
  define c where "c = colour_at board ps"
  from w have c0: "c \<noteq> 0" by (simp add: c_def winning_def colour_at_def)
  from w m have five: "five_in_row board n c"
    using winning_colour_iff [of n board c] by (auto simp: c_def)
  from m obtain i j d where "in_board n i j" "ps = window i j d"
    unfolding in_all_windows by blast
  then have "c = cell board i j" "0 \<le> i \<and> i < n \<and> 0 \<le> j \<and> j < n"
    by (simp_all add: c_def colour_at_window in_board_def)
  moreover from assms have "\<forall>i j. 0 \<le> i \<and> i < n \<and> 0 \<le> j \<and> j < n \<longrightarrow>
      (cell board i j = 0 \<or> cell board i j = 1 \<or> cell board i j = 2)"
    using square_cells [of board n "\<lambda>c. c = 0 \<or> c = 1 \<or> c = 2"] by (simp add: cells_valid_def)
  ultimately have "c = 0 \<or> c = 1 \<or> c = 2" by blast
  with c0 five have "five_in_row board n 1 \<or> five_in_row board n 2" by auto
  moreover from Some c0 have "is_end (check_game_end board n) \<and> winner (check_game_end board n) \<noteq> 0"
    by (simp add: check_game_end_eq win_result_def Win_def colour_at_def c_def)
  ultimately show ?thesis by blast
qed

theorem check_game_end_draw_ongoing_witness:
  "square board5 5 \<and> cells_valid board5 \<and>
   filled board5 \<and> \<not> five_in_row board5 5 1 \<and> \<not> five_in_row board5 5 2 \<and>
   is_end (check_game_end board5 5) \<and> winner (check_game_end board5 5) = 0"
proof -
  have s: "square board5 5" by code_simp
  have v: "cells_valid board5" by code_simp
  have f: "filled board5" by code_simp
  have n1: "\<not> five_in_row board5 5 1" by code_simp
  have n2: "\<not> five_in_row board5 5 2" by code_simp
  from check_game_end_draw_ongoing [OF s v] s v f n1 n2 show ?thesis by blast
qed

lemma for_first_None_iff:
  "for_first lo hi f = None \<longleftrightarrow> (\<forall>v. lo \<le> v \<and> v < hi \<longrightarrow> f v = None)"
  by (auto simp: for_first_upto first_some_None)

lemma for_first_SomeD:
  "for_first lo hi f = Some r \<Longrightarrow>
     \<exists>v. lo \<le> v \<and> v < hi \<and> f v = Some r \<and> (\<forall>u. lo \<le> u \<and> u < v \<longrightarrow> f u = None)"
proof (induction lo hi f rule: for_first.induct)
  case (1 v hi body)
  from "1.prems" have lt: "v < hi" by (simp add: for_first.simps [of v] split: if_splits)
  show ?case
  proof (cases "body v")
    case None
    with "1.prems" lt have "for_first (v + 1) hi body = Some r"
      by (simp add: for_first.simps [of v])
    with "1.IH" [OF lt None] obtain w where w: "v + 1 \<le> w" "w < hi" "body w = Some r"
      "\<forall>u. v + 1 \<le> u \<and> u < w \<longrightarrow> body u = None" by blast
    have "body u = None" if "v \<le> u \<and> u < w" for u
      using that w(4) None by (cases "u = v") auto
    with w show ?thesis by (intro exI [of _ w]) auto
  next
    case (Some a)
    with "1.prems" lt have "a = r" by (simp add: for_first.simps [of v])
    with Some lt show ?thesis by (intro exI [of _ v]) auto
  qed
qed

section \<open>The down-left pass\<close>

lemma window_inject: "window i j d = window i' j' d' \<Longrightarrow> i = i' \<and> j = j'"
  by (simp add: window_def upto_0_4)

lemma down_left_first:
  assumes "0 \<le> i" "i \<le> n - 5" "4 \<le> j" "j < n"
    and "winning board (window i j (1, - 1))"
  shows "\<exists>i' j'. 0 \<le> i' \<and> i' \<le> n - 5 \<and> 4 \<le> j' \<and> j' < n \<and>
           (i' < i \<or> i' = i \<and> j' \<le> j) \<and>
           winning board (window i' j' (1, - 1)) \<and>
           (\<forall>u. 0 \<le> u \<and> u < i' \<longrightarrow> (\<forall>v. 4 \<le> v \<and> v < n \<longrightarrow> \<not> winning board (window u v (1, - 1)))) \<and>
           (\<forall>v. 4 \<le> v \<and> v < j' \<longrightarrow> \<not> winning board (window i' v (1, - 1))) \<and>
           scan_diag_down_left board n = Some (win_result board (window i' j' (1, - 1)))"
proof -
  let ?g = "\<lambda>i j. check_window board i j 1 (- 1)"
  let ?row = "\<lambda>i. for_first 4 n (?g i)"
  have sc: "scan_diag_down_left board n = for_first 0 (n - 5 + 1) ?row"
    by (simp add: scan_diag_down_left_def win_len_def)
  from assms have "?g i j \<noteq> None" by (simp add: check_window_eq)
  with assms have rowi: "?row i \<noteq> None" by (auto simp: for_first_None_iff)
  have "for_first 0 (n - 5 + 1) ?row \<noteq> None"
  proof
    assume "for_first 0 (n - 5 + 1) ?row = None"
    then have "\<forall>v. 0 \<le> v \<and> v < n - 5 + 1 \<longrightarrow> ?row v = None"
      by (simp only: for_first_None_iff)
    with assms have "?row i = None" by simp
    with rowi show False by simp
  qed
  then obtain r where r: "for_first 0 (n - 5 + 1) ?row = Some r" by auto
  from for_first_SomeD [OF r] obtain i' where i': "0 \<le> i'" "i' < n - 5 + 1" "?row i' = Some r"
    "\<forall>u. 0 \<le> u \<and> u < i' \<longrightarrow> ?row u = None" by blast
  from for_first_SomeD [OF i'(3)] obtain j' where j': "4 \<le> j'" "j' < n" "?g i' j' = Some r"
    "\<forall>v. 4 \<le> v \<and> v < j' \<longrightarrow> ?g i' v = None" by blast
  from j'(3) have w: "winning board (window i' j' (1, - 1))" and
    rr: "r = win_result board (window i' j' (1, - 1))"
    by (simp_all add: check_window_eq split: if_splits)
  have le: "i' \<le> i"
  proof (rule ccontr)
    assume "\<not> i' \<le> i"
    with assms i'(4) have "?row i = None" by auto
    with \<open>?row i \<noteq> None\<close> show False by simp
  qed
  have lej: "j' \<le> j" if "i' = i"
  proof (rule ccontr)
    assume "\<not> j' \<le> j"
    with assms j'(4) that have "?g i j = None" by auto
    with \<open>?g i j \<noteq> None\<close> show False by simp
  qed
  have e1: "\<not> winning board (window u v (1, - 1))" if "0 \<le> u \<and> u < i'" "4 \<le> v \<and> v < n" for u v
  proof -
    from that i'(4) have "?row u = None" by blast
    with that have "?g u v = None" by (auto simp: for_first_None_iff)
    then show ?thesis by (simp add: check_window_eq split: if_splits)
  qed
  have e2: "\<not> winning board (window i' v (1, - 1))" if "4 \<le> v \<and> v < j'" for v
  proof -
    from that j'(4) have "?g i' v = None" by blast
    then show ?thesis by (simp add: check_window_eq split: if_splits)
  qed
  from le lej have "i' < i \<or> i' = i \<and> j' \<le> j" by auto
  with i' j' w e1 e2 sc r rr show ?thesis
    by (intro exI [of _ i'] exI [of _ j']) auto
qed

text \<open>
  C2 (as the code has it). The fourth pass examines the down-left windows with the
  start row ascending and, within a start row, the start column ascending from 4 up
  to \<open>n - 1\<close>. So when the first three passes find nothing and two down-left
  windows with the same start row \<open>i\<close> and start columns \<open>j1 < j2\<close> both win, the
  line reported is never the window with the larger start column \<open>j2\<close>; and it is
  the window with the smaller start column \<open>j1\<close> when no down-left window wins in
  an earlier start row or in row \<open>i\<close> at a start column below \<open>j1\<close>.
\<close>

theorem down_left_pass_smaller_column:
  assumes "scan_horizontal board n = None" and "scan_vertical board n = None"
    and "scan_diag_down_right board n = None"
    and "0 \<le> i" and "i \<le> n - 5" and "4 \<le> j1" and "j1 < j2" and "j2 < n"
    and "winning board (window i j1 (1, - 1))" and "winning board (window i j2 (1, - 1))"
  shows "win_line (check_game_end board n) \<noteq> window i j2 (1, - 1) \<and>
         (list_all (\<lambda>u. list_all (\<lambda>v. \<not> winning board (window u v (1, - 1))) [4..n - 1]) [0..i - 1] \<and>
          list_all (\<lambda>v. \<not> winning board (window i v (1, - 1))) [4..j1 - 1] \<longrightarrow>
          check_game_end board n = Win (cell board i j1) (window i j1 (1, - 1)))"
proof -
  from assms have "j1 < n" by simp
  from down_left_first [OF assms(4,5,6) this assms(9)]
  obtain i' j' where b: "0 \<le> i'" "i' \<le> n - 5" "4 \<le> j'" "j' < n"
    and o: "i' < i \<or> i' = i \<and> j' \<le> j1"
    and w: "winning board (window i' j' (1, - 1))"
    and s: "scan_diag_down_left board n = Some (win_result board (window i' j' (1, - 1)))"
    by blast
  from assms(1-3) s have c: "check_game_end board n = win_result board (window i' j' (1, - 1))"
    by (simp add: check_game_end_def)
  have "window i' j' (1, - 1) \<noteq> window i j2 (1, - 1)"
  proof
    assume "window i' j' (1, - 1) = window i j2 (1, - 1)"
    then have "i' = i \<and> j' = j2" by (rule window_inject)
    with o assms(7) show False by auto
  qed
  with c have first: "win_line (check_game_end board n) \<noteq> window i j2 (1, - 1)"
    by (simp add: win_result_def Win_def colour_at_def)
  have "check_game_end board n = Win (cell board i j1) (window i j1 (1, - 1))"
    if e1: "list_all (\<lambda>u. list_all (\<lambda>v. \<not> winning board (window u v (1, - 1))) [4..n - 1]) [0..i - 1]"
    and e2: "list_all (\<lambda>v. \<not> winning board (window i v (1, - 1))) [4..j1 - 1]"
  proof -
    have "i' = i"
    proof (rule ccontr)
      assume "i' \<noteq> i"
      with o b have "i' \<in> set [0..i - 1]" "j' \<in> set [4..n - 1]" by auto
      with e1 w show False unfolding list_all_iff by blast
    qed
    moreover have "j' = j1"
    proof (rule ccontr)
      assume "j' \<noteq> j1"
      with o \<open>i' = i\<close> b have "j' \<in> set [4..j1 - 1]" by auto
      with e2 w \<open>i' = i\<close> show False unfolding list_all_iff by blast
    qed
    ultimately show ?thesis using c
      by (simp add: win_result_def Win_def colour_at_def window_def upto_0_4)
  qed
  with first show ?thesis by blast
qed

theorem down_left_pass_smaller_column_witness:
  "scan_horizontal board_dl 6 = None \<and> scan_vertical board_dl 6 = None \<and>
   scan_diag_down_right board_dl 6 = None \<and>
   winning board_dl (window 0 4 (1, - 1)) \<and> winning board_dl (window 0 5 (1, - 1)) \<and>
   check_game_end board_dl 6 = Win 1 [(0, 4), (1, 3), (2, 2), (3, 1), (4, 0)]"
proof -
  have h: "scan_horizontal board_dl 6 = None" by code_simp
  have v: "scan_vertical board_dl 6 = None" by code_simp
  have d: "scan_diag_down_right board_dl 6 = None" by code_simp
  have w1: "winning board_dl (window 0 4 (1, - 1))" by code_simp
  have w2: "winning board_dl (window 0 5 (1, - 1))" by code_simp
  have e: "list_all (\<lambda>u. list_all (\<lambda>v. \<not> winning board_dl (window u v (1, - 1))) [4..6 - 1]) [0..0 - 1] \<and>
          list_all (\<lambda>v. \<not> winning board_dl (window 0 v (1, - 1))) [4..4 - 1]"
    by code_simp
  have c: "cell board_dl 0 4 = 1" by code_simp
  have l: "window 0 4 (1, - 1) = [(0, 4), (1, 3), (2, 2), (3, 1), (4, 0)]" by code_simp
  from down_left_pass_smaller_column [OF h v d _ _ _ _ _ w1 w2] e c l h v d w1 w2
  show ?thesis by simp
qed

text \<open>
  C2 as stated fails: on a board of side 6 whose only winning windows are the two
  down-left windows that start at \<open>(0, 4)\<close> and \<open>(0, 5)\<close>, the line reported is the one
  with the smaller start column 4, not the one with the larger start column 5.
\<close>

theorem down_left_pass_larger_column_counterexample:
  "scan_horizontal board_dl 6 = None \<and> scan_vertical board_dl 6 = None \<and>
   scan_diag_down_right board_dl 6 = None \<and>
   check_window board_dl 0 4 1 (- 1) \<noteq> None \<and> check_window board_dl 0 5 1 (- 1) \<noteq> None \<and>
   win_line (check_game_end board_dl 6) = [(0, 4), (1, 3), (2, 2), (3, 1), (4, 0)] \<and>
   win_line (check_game_end board_dl 6) \<noteq> [(0, 5), (1, 4), (2, 3), (3, 2), (4, 1)]"
  by code_simp

section \<open>The pattern scorer\<close>

lemma check_line_loop_run:
  assumes "\<forall>k<m. in_board n (x + int k * dx) (y + int k * dy) \<and>
                  cell board (x + int k * dx) (y + int k * dy) = c"
    and "\<not> (in_board n (x + int m * dx) (y + int m * dy) \<and>
             cell board (x + int m * dx) (y + int m * dy) = c)"
  shows "check_line_loop board x y dx dy c n count = Some (count + int m)"
  using assms
proof (induction m arbitrary: x y count)
  case 0
  then show ?case
    by (subst check_line_loop.simps) (auto simp: in_board_def)
next
  case (Suc m)
  from Suc.prems(1) [rule_format, of 0] have here: "in_board n x y \<and> cell board x y = c" by simp
  have a: "\<forall>k<m. in_board n (x + dx + int k * dx) (y + dy + int k * dy) \<and>
                 cell board (x + dx + int k * dx) (y + dy + int k * dy) = c"
  proof (intro allI impI)
    fix k assume "k < m"
    then have "Suc k < Suc m" by simp
    from Suc.prems(1) [rule_format, OF this]
    have "in_board n (x + int (Suc k) * dx) (y + int (Suc k) * dy) \<and>
        cell board (x + int (Suc k) * dx) (y + int (Suc k) * dy) = c" .
    then show "in_board n (x + dx + int k * dx) (y + dy + int k * dy) \<and>
        cell board (x + dx + int k * dx) (y + dy + int k * dy) = c"
      by (simp add: algebra_simps)
  qed
  from Suc.prems(2) have b: "\<not> (in_board n (x + dx + int m * dx) (y + dy + int m * dy) \<and>
      cell board (x + dx + int m * dx) (y + dy + int m * dy) = c)"
    by (simp add: algebra_simps)
  from Suc.IH [OF a b]
  have "check_line_loop board (x + dx) (y + dy) dx dy c n (count + 1) = Some (count + 1 + int m)" .
  with here show ?case
    by (subst check_line_loop.simps) (simp add: in_board_def)
qed

lemma check_line_run_length:
  assumes "in_board n x y" and "dx \<noteq> 0 \<or> dy \<noteq> 0"
    and "- 1 \<le> dx" "dx \<le> 1" "- 1 \<le> dy" "dy \<le> 1"
  shows "check_line board (x + dx) (y + dy) dx dy c n = Some (run_length board n c x y dx dy)"
proof -
  define P where "P = (\<lambda>k. in_board n (x + k * dx) (y + k * dy) \<and>
      cell board (x + k * dx) (y + k * dy) = c)"
  define m where "m = length (takeWhile P [1..n])"
  have rl: "run_length board n c x y dx dy = int m"
    by (simp add: run_length_def m_def P_def)
  from assms(1) have n: "0 < n" by (auto simp: in_board_def)
  have len: "length [1..n] = nat n" by simp
  have mle: "m \<le> nat n" unfolding m_def using length_takeWhile_le [of P "[1..n]"] by simp
  have nth: "[1..n] ! k = 1 + int k" if "k < nat n" for k
    using that by (simp add: nth_upto)
  have before: "P (1 + int k)" if "k < m" for k
  proof -
    from that have "k < length (takeWhile P [1..n])" by (simp add: m_def)
    then have "takeWhile P [1..n] ! k \<in> set (takeWhile P [1..n])" by simp
    then have "P (takeWhile P [1..n] ! k)" by (rule set_takeWhileD [THEN conjunct2])
    moreover have "takeWhile P [1..n] ! k = [1..n] ! k"
      using that by (simp add: m_def takeWhile_nth)
    ultimately show ?thesis using that mle by (simp add: nth)
  qed
  have "\<not> P n"
  proof
    assume "P n"
    then have ib: "in_board n (x + n * dx) (y + n * dy)" by (simp add: P_def)
    from assms(2-6) consider "dx = 1" | "dx = - 1" | "dx = 0 \<and> dy = 1" | "dx = 0 \<and> dy = - 1"
      by arith
    then show False
    proof cases
      case 1
      with ib assms(1) show False by (simp add: in_board_def)
    next
      case 2
      with ib assms(1) show False by (simp add: in_board_def)
    next
      case 3
      with ib assms(1) show False by (simp add: in_board_def)
    next
      case 4
      with ib assms(1) show False by (simp add: in_board_def)
    qed
  qed
  have mlt: "m < nat n"
  proof (rule ccontr)
    assume "\<not> m < nat n"
    with mle have "m = nat n" by simp
    with n have "nat n - 1 < m" by simp
    from before [OF this] n have "P n" by (simp add: of_nat_diff)
    with \<open>\<not> P n\<close> show False ..
  qed
  have after: "\<not> P (1 + int m)"
  proof -
    from mlt have "m < length [1..n]" by simp
    then have "\<not> P ([1..n] ! m)" unfolding m_def by (rule nth_length_takeWhile)
    with mlt show ?thesis by (simp add: nth)
  qed
  have a: "\<forall>k<m. in_board n (x + dx + int k * dx) (y + dy + int k * dy) \<and>
                 cell board (x + dx + int k * dx) (y + dy + int k * dy) = c"
  proof (intro allI impI)
    fix k assume "k < m"
    from before [OF this] show "in_board n (x + dx + int k * dx) (y + dy + int k * dy) \<and>
        cell board (x + dx + int k * dx) (y + dy + int k * dy) = c"
      by (simp add: P_def algebra_simps)
  qed
  from after have b: "\<not> (in_board n (x + dx + int m * dx) (y + dy + int m * dy) \<and>
      cell board (x + dx + int m * dx) (y + dy + int m * dy) = c)"
    by (simp add: P_def algebra_simps)
  from check_line_loop_run [OF a b, of 0] rl show ?thesis
    by (simp add: check_line_def)
qed

lemma dir_step_axis_weight:
  assumes "in_board n x y" and "d \<in> set dirs" and "c = 1 \<or> c = 2"
  shows "dir_step board x y c w n d s = Some (s + axis_weight w board n c x y d)"
proof -
  from assms(2) have d: "fst d \<noteq> 0 \<or> snd d \<noteq> 0" "- 1 \<le> fst d" "fst d \<le> 1" "- 1 \<le> snd d" "snd d \<le> 1"
    by (auto simp: dirs_def)
  have f: "check_line board (x + fst d) (y + snd d) (fst d) (snd d) c n =
      Some (run_length board n c x y (fst d) (snd d))"
    using check_line_run_length [OF assms(1) d] .
  have b: "check_line board (x - fst d) (y - snd d) (- fst d) (- snd d) c n =
      Some (run_length board n c x y (- fst d) (- snd d))"
    using check_line_run_length [OF assms(1), of "- fst d" "- snd d" board c] d by simp
  have o: "(if c = 1 then 2 else 1) = 3 - c" using assms(3) by auto
  have nonneg: "0 \<le> run_length board n c x y u v" for u v by (simp add: run_length_def)
  show ?thesis
    unfolding dir_step_def Let_def f b o
    using nonneg [of "fst d" "snd d"] nonneg [of "- fst d" "- snd d"]
    by (simp add: axis_weight_def Let_def pattern_weight_def blocked_at_def in_board_def)
qed

lemma get_pattern_score_sum:
  assumes "in_board n x y" and "c = 1 \<or> c = 2"
  shows "get_pattern_score board x y c w n = Some (\<Sum>d\<leftarrow>dirs. axis_weight w board n c x y d)"
proof -
  have "d \<in> set dirs \<Longrightarrow> dir_step board x y c w n d s = Some (s + axis_weight w board n c x y d)" for d s
    using dir_step_axis_weight [OF assms(1) _ assms(2)] .
  then show ?thesis
    by (simp add: get_pattern_score_def dirs_def)
qed




section \<open>The local optimizer\<close>

lemma fold_append_if:
  "fold (\<lambda>d cs. if P d then cs @ [g d] else cs) ds acc = acc @ map g (filter P ds)"
  by (induction ds arbitrary: acc) auto

lemma upt_0_8: "[0..<8] = [0, 1, 2, 3, 4, 5, 6, 7]"
  by code_simp

lemma candidates_of_eq: "candidates_of board seed n = candidate_list board seed n"
proof -
  let ?g = "\<lambda>d. (fst seed + dx_tab ! d, snd seed + dy_tab ! d)"
  let ?P = "\<lambda>p. in_board n (fst p) (snd p) \<and> cell board (fst p) (snd p) = 0"
  have "candidates_of board seed n = fold (\<lambda>d cs. if ?P (?g d) then cs @ [?g d] else cs) [0..<8] [seed]"
    by (simp add: candidates_of_def Let_def in_board_def)
  also have "\<dots> = [seed] @ map ?g (filter (\<lambda>d. ?P (?g d)) [0..<8])"
    by (rule fold_append_if)
  also have "map ?g (filter (\<lambda>d. ?P (?g d)) [0..<8]) = filter ?P (map ?g [0..<8])"
    by (simp add: filter_map comp_def)
  also have "map ?g [0..<8] = map (\<lambda>d. (fst seed + fst d, snd seed + snd d)) neighbour_offsets"
    by (simp add: upt_0_8 dx_tab_def dy_tab_def neighbour_offsets_def)
  finally show ?thesis by (simp add: candidate_list_def)
qed

lemma candidate_in_board:
  "in_board n (fst seed) (snd seed) \<Longrightarrow> m \<in> set (candidate_list board seed n) \<Longrightarrow>
   in_board n (fst m) (snd m)"
  by (auto simp: candidate_list_def)

lemma dir_step_zero:
  assumes "in_board n x y" and "d \<in> set dirs"
  shows "dir_step board x y c Weights_zero n d s = Some s"
proof -
  from assms(2) have d: "fst d \<noteq> 0 \<or> snd d \<noteq> 0" "- 1 \<le> fst d" "fst d \<le> 1" "- 1 \<le> snd d" "snd d \<le> 1"
    by (auto simp: dirs_def)
  have f: "check_line board (x + fst d) (y + snd d) (fst d) (snd d) c n =
      Some (run_length board n c x y (fst d) (snd d))"
    using check_line_run_length [OF assms(1) d] .
  have b: "check_line board (x - fst d) (y - snd d) (- fst d) (- snd d) c n =
      Some (run_length board n c x y (- fst d) (- snd d))"
    using check_line_run_length [OF assms(1), of "- fst d" "- snd d" board c] d by simp
  show ?thesis
    unfolding dir_step_def Let_def f b by (simp add: Weights_zero_def)
qed

lemma evaluate_move_zero:
  assumes "in_board n x y"
  shows "evaluate_move board x y c Weights_zero n = Some 0"
proof -
  have "d \<in> set dirs \<Longrightarrow> dir_step b x y c Weights_zero n d s = Some s" for d s b
    using dir_step_zero [OF assms] .
  then show ?thesis
    by (simp add: evaluate_move_def get_pattern_score_def dirs_def)
qed

lemma fold_fixed: "(\<And>x. f x a = a) \<Longrightarrow> fold f xs a = a"
  by (induction xs) auto

lemma iter_loop_zero:
  assumes "in_board n (fst m) (snd m)"
  shows "iter_loop board m c iterations n = Some 0"
  unfolding iter_loop_def
  by (rule fold_fixed) (simp add: evaluate_move_zero [OF assms])

lemma candidate_step_zero:
  assumes "in_board n (fst m) (snd m)"
  shows "candidate_step board c iterations n m best =
           Some (if iterations \<noteq> 0 \<and> 0 > fst best then (0, m) else best)"
  by (simp add: candidate_step_def iter_loop_zero [OF assms])

lemma best_stays:
  assumes "\<And>m. m \<in> set ms \<Longrightarrow> in_board n (fst m) (snd m)" and "iterations = 0 \<or> 0 \<le> v"
  shows "fold (\<lambda>move best. best \<bind> candidate_step board c iterations n move) ms (Some (v, p)) =
           Some (v, p)"
  using assms
proof (induction ms)
  case Nil
  then show ?case by simp
next
  case (Cons m ms)
  from Cons.prems have "candidate_step board c iterations n m (v, p) = Some (v, p)"
    by (auto simp: candidate_step_zero)
  with Cons show ?case by simp
qed

lemma mcts_optimize_seed:
  assumes "in_board n (fst seed) (snd seed)"
  shows "mcts_optimize board seed c depth iterations n = Some seed"
proof -
  let ?rest = "filter (\<lambda>p. in_board n (fst p) (snd p) \<and> cell board (fst p) (snd p) = 0)
                 (map (\<lambda>d. (fst seed + fst d, snd seed + snd d)) neighbour_offsets)"
  have cs: "candidates_of board seed n = seed # ?rest"
    by (simp add: candidates_of_eq candidate_list_def)
  have first: "candidate_step board c iterations n seed (- 1000000000, seed) =
      Some (if iterations \<noteq> 0 then 0 else - 1000000000, seed)"
    by (simp add: candidate_step_zero [OF assms])
  have "fold (\<lambda>move best. best \<bind> candidate_step board c iterations n move) ?rest
          (Some (if iterations \<noteq> 0 then 0 else - 1000000000, seed)) =
        Some (if iterations \<noteq> 0 then 0 else - 1000000000, seed)"
    by (rule best_stays) auto
  with first show ?thesis
    by (simp add: mcts_optimize_def cs)
qed

lemma evaluate_move_sum:
  assumes "in_board n x y" and "c = 1 \<or> c = 2"
  shows "evaluate_move board x y c w n = Some (evaluate_spec board (x, y) c w n)"
  using get_pattern_score_sum [OF assms] by (simp add: evaluate_move_def evaluate_spec_def)

lemma pattern_weight_zero: "pattern_weight Weights_zero len blocked = 0"
  by (simp add: pattern_weight_def Weights_zero_def)

lemma axis_weight_zero: "axis_weight Weights_zero board n c x y d = 0"
  by (simp add: axis_weight_def Let_def pattern_weight_zero)

lemma mean_score_zero: "mean_score board m c Weights_zero reps n = 0"
  by (simp add: mean_score_def evaluate_spec_def axis_weight_zero)

lemma optimize_spec_zero:
  shows "optimize_spec board seed c Weights_zero reps n = seed"
proof -
  let ?cs = "candidate_list board seed n"
  have "filter (\<lambda>m. list_all (\<lambda>m'. mean_score board m' c Weights_zero reps n
                 \<le> mean_score board m c Weights_zero reps n) ?cs) ?cs = ?cs"
    by (simp add: list_all_iff mean_score_zero)
  then show ?thesis
    by (simp add: optimize_spec_def Let_def) (simp add: candidate_list_def)
qed

lemma all_fields_zero:
  fixes w :: Weights
  assumes "FIVE w = 0" "FOUR w = 0" "BLOCKED_FOUR w = 0" "THREE w = 0"
    "BLOCKED_THREE w = 0" "TWO w = 0" "BLOCKED_TWO w = 0" "ONE w = 0"
  shows "w = Weights_zero"
  using assms by (cases w) (simp add: Weights_zero_def)

text \<open>
  C1 (as the code has it). \<^verbatim>\<open>mcts_optimize\<close> has no weights argument. For a seed on
  the board it enumerates the seed first and then the eight neighbours in the fixed
  offset order, each kept only if on the board and empty; it scores every candidate
  with the all-zero record \<^verbatim>\<open>Weights{}\<close>, as the mean of \<open>iterations\<close> evaluations,
  and returns the earliest candidate of highest score: what the specified
  optimizer returns when it is run with all-zero weights.
\<close>

theorem mcts_optimize_scores_with_zero_weights:
  assumes "in_board n (fst seed) (snd seed)" and "1 \<le> iterations"
  shows "candidates_of board seed n =
           seed # filter (\<lambda>p. in_board n (fst p) (snd p) \<and> cell board (fst p) (snd p) = 0)
                    (map (\<lambda>d. (fst seed + fst d, snd seed + snd d))
                       [(- 1, - 1), (0, - 1), (1, - 1), (- 1, 0), (1, 0), (- 1, 1), (0, 1), (1, 1)]) \<and>
         (\<forall>m \<in> set (candidates_of board seed n).
            candidate_step board c iterations n m best =
              (let score = (\<Sum>i\<leftarrow>[0..<nat iterations].
                              the (evaluate_move board (fst m) (snd m) c Weights_zero n))
                           / real_of_int iterations
               in Some (if score > fst best then (score, m) else best))) \<and>
         mcts_optimize board seed c depth iterations n =
           Some (optimize_spec board seed c Weights_zero iterations n)"
proof -
  have "candidate_step board c iterations n m best =
      (let score = (\<Sum>i\<leftarrow>[0..<nat iterations].
                      the (evaluate_move board (fst m) (snd m) c Weights_zero n))
                   / real_of_int iterations
       in Some (if score > fst best then (score, m) else best))"
    if "m \<in> set (candidates_of board seed n)" for m
  proof -
    from that have "in_board n (fst m) (snd m)"
      using candidate_in_board [OF assms(1)] by (simp add: candidates_of_eq)
    with assms(2) show ?thesis by (simp add: candidate_step_zero evaluate_move_zero)
  qed
  then show ?thesis
    by (simp add: candidates_of_eq candidate_list_def neighbour_offsets_def
        mcts_optimize_seed [OF assms(1)] optimize_spec_zero)
qed

theorem mcts_optimize_scores_with_zero_weights_witness:
  "in_board 5 2 2 \<and>
   candidates_of board_two (2, 2) 5 =
     [(2, 2), (1, 1), (2, 1), (3, 1), (1, 2), (3, 2), (1, 3), (2, 3), (3, 3)] \<and>
   optimize_spec board_two (2, 2) 1 Weights_zero 10 5 = (2, 2) \<and>
   mcts_optimize board_two (2, 2) 1 3 10 5 = Some (2, 2)"
proof -
  have i: "in_board 5 (fst (2, 2)) (snd (2, 2))" by (simp add: in_board_def)
  have c: "candidates_of board_two (2, 2) 5 =
     [(2, 2), (1, 1), (2, 1), (3, 1), (1, 2), (3, 2), (1, 3), (2, 3), (3, 3)]" by code_simp
  have o: "optimize_spec board_two (2, 2) 1 Weights_zero 10 5 = (2, 2)"
    by (rule optimize_spec_zero)
  have r: "(1::int) \<le> 10" by simp
  from mcts_optimize_scores_with_zero_weights [OF i r, where board = board_two and c = 1
      and depth = 3] i c o
  show ?thesis by simp
qed

text \<open>
  C1 as stated fails: with the colour-1 stone at \<open>(0, 0)\<close>, the seed \<open>(2, 2)\<close> and
  weights under which a pair scores more than a single stone, the neighbour
  \<open>(1, 1)\<close> is a candidate and has the highest mean score (103 against 4) under the
  caller's weights, so the optimizer of the claim returns \<open>(1, 1)\<close>; the code
  returns the seed.
\<close>

theorem mcts_optimize_caller_weights_counterexample:
  "(1, 1) \<in> set (candidates_of board_two (2, 2) 5) \<and>
   evaluate_move board_two 1 1 1 weights_ex 5 = Some 103 \<and>
   evaluate_move board_two 2 2 1 weights_ex 5 = Some 4 \<and>
   optimize_spec board_two (2, 2) 1 weights_ex 10 5 = (1, 1) \<and>
   mcts_optimize board_two (2, 2) 1 3 10 5 = Some (2, 2)"
proof -
  have "(1, 1) \<in> set (candidates_of board_two (2, 2) 5)" by code_simp
  moreover have "evaluate_spec board_two (1, 1) 1 weights_ex 5 = 103" by code_simp
  then have "evaluate_move board_two 1 1 1 weights_ex 5 = Some 103"
    using evaluate_move_sum [of 5 1 1 1 board_two weights_ex] by (simp add: in_board_def)
  moreover have "evaluate_spec board_two (2, 2) 1 weights_ex 5 = 4" by code_simp
  then have "evaluate_move board_two 2 2 1 weights_ex 5 = Some 4"
    using evaluate_move_sum [of 5 2 2 1 board_two weights_ex] by (simp add: in_board_def)
  moreover have "optimize_spec board_two (2, 2) 1 weights_ex 10 5 = (1, 1)" by code_simp
  moreover have "mcts_optimize board_two (2, 2) 1 3 10 5 = Some (2, 2)"
    by (rule mcts_optimize_seed) (simp add: in_board_def)
  ultimately show ?thesis by blast
qed

text \<open>
  C9. With a weights record whose eight fields are all zero, every candidate of a
  seed on the board is evaluated to 0 by \<^verbatim>\<open>evaluate_move\<close>, the specified optimizer
  returns the seed for every board and every repetition count, and
  \<^verbatim>\<open>mcts_optimize\<close>, which scores with the all-zero record \<^verbatim>\<open>Weights{}\<close> and takes
  no other, returns the seed as well.
\<close>

theorem optimize_all_zero_weights_returns_seed:
  fixes w :: Weights
  assumes "in_board n (fst seed) (snd seed)" and "1 \<le> reps"
    and "FIVE w = 0" "FOUR w = 0" "BLOCKED_FOUR w = 0" "THREE w = 0"
      "BLOCKED_THREE w = 0" "TWO w = 0" "BLOCKED_TWO w = 0" "ONE w = 0"
  shows "(\<forall>m \<in> set (candidates_of board seed n).
            evaluate_move board (fst m) (snd m) c w n = Some 0) \<and>
         optimize_spec board seed c w reps n = seed \<and>
         mcts_optimize board seed c depth reps n = Some seed"
proof -
  from assms(3-10) have w: "w = Weights_zero" by (rule all_fields_zero)
  have "evaluate_move board (fst m) (snd m) c w n = Some 0"
    if "m \<in> set (candidates_of board seed n)" for m
  proof -
    from that have "in_board n (fst m) (snd m)"
      using candidate_in_board [OF assms(1)] by (simp add: candidates_of_eq)
    then show ?thesis unfolding w by (rule evaluate_move_zero)
  qed
  then show ?thesis
    by (simp add: w optimize_spec_zero mcts_optimize_seed [OF assms(1)])
qed

theorem optimize_all_zero_weights_returns_seed_witness:
  "in_board 5 4 0 \<and> evaluate_move board_three 3 1 2 Weights_zero 5 = Some 0 \<and>
   optimize_spec board_three (4, 0) 2 Weights_zero 7 5 = (4, 0) \<and>
   mcts_optimize board_three (4, 0) 2 1 7 5 = Some (4, 0)"
proof -
  have i: "in_board 5 (fst (4, 0)) (snd (4, 0))" by (simp add: in_board_def)
  have r: "(1::int) \<le> 7" by simp
  have m: "(3, 1) \<in> set (candidates_of board_three (4, 0) 5)" by code_simp
  have z: "FIVE Weights_zero = 0" "FOUR Weights_zero = 0" "BLOCKED_FOUR Weights_zero = 0"
    "THREE Weights_zero = 0" "BLOCKED_THREE Weights_zero = 0" "TWO Weights_zero = 0"
    "BLOCKED_TWO Weights_zero = 0" "ONE Weights_zero = 0"
    by (simp_all add: Weights_zero_def)
  from optimize_all_zero_weights_returns_seed [OF i r z, where board = board_three
      and c = 2 and depth = 1] i m
  show ?thesis by force
qed

text \<open>
  C10. For every seed on the board, every colour, depth and iteration count of at
  least 1, \<^verbatim>\<open>mcts_optimize\<close> returns \<^verbatim>\<open>init_move\<close>: the candidate list starts with
  it, every candidate's evaluations with \<^verbatim>\<open>Weights{}\<close> add up to 0, so a round of
  the candidate loop replaces the running best only while its score is below 0,
  which holds for the first candidate alone; and other values of \<^verbatim>\<open>depth\<close> and
  \<^verbatim>\<open>iterations\<close> give the same position.
\<close>

theorem mcts_optimize_returns_init_move:
  assumes "in_board n (fst init_move) (snd init_move)" and "1 \<le> iterations"
  shows "mcts_optimize board init_move c depth iterations n = Some init_move \<and>
         hd (candidates_of board init_move n) = init_move \<and>
         (\<forall>m \<in> set (candidates_of board init_move n).
            evaluate_move (set_cell board (fst m) (snd m) c) (fst m) (snd m) c Weights_zero n = Some 0 \<and>
            iter_loop board m c iterations n = Some 0 \<and>
            candidate_step board c iterations n m best =
              Some (if 0 > fst best then (0, m) else best)) \<and>
         mcts_optimize board init_move c depth' iterations' n =
           mcts_optimize board init_move c depth iterations n"
proof -
  have "evaluate_move (set_cell board (fst m) (snd m) c) (fst m) (snd m) c Weights_zero n = Some 0 \<and>
        iter_loop board m c iterations n = Some 0 \<and>
        candidate_step board c iterations n m best = Some (if 0 > fst best then (0, m) else best)"
    if "m \<in> set (candidates_of board init_move n)" for m
  proof -
    from that have "in_board n (fst m) (snd m)"
      using candidate_in_board [OF assms(1)] by (simp add: candidates_of_eq)
    with assms(2) show ?thesis
      by (simp add: evaluate_move_zero iter_loop_zero candidate_step_zero)
  qed
  moreover have "hd (candidates_of board init_move n) = init_move"
    by (simp add: candidates_of_eq candidate_list_def)
  ultimately show ?thesis
    by (simp add: mcts_optimize_seed [OF assms(1)])
qed

theorem mcts_optimize_returns_init_move_witness:
  "in_board 5 1 3 \<and> mcts_optimize board_three (1, 3) 1 4 100 5 = Some (1, 3) \<and>
   mcts_optimize board_three (1, 3) 1 9 1 5 = Some (1, 3)"
proof -
  have i: "in_board 5 (fst (1, 3)) (snd (1, 3))" by (simp add: in_board_def)
  have r: "(1::int) \<le> 100" by simp
  from mcts_optimize_returns_init_move [OF i r, where board = board_three and c = 1
      and depth = 4 and depth' = 9 and iterations' = 1] i
  show ?thesis by simp
qed

section \<open>The winning-move finder\<close>

lemma find_winning_move_eq:
  "find_winning_move board c n =
     (case find (wins_at board c n) (row_major n) of Some p \<Rightarrow> p | None \<Rightarrow> (- 1, - 1))"
proof -
  have body: "(if cell board i j \<noteq> 0 then None
               else (let temp_board = set_cell board i j c; result = check_game_end temp_board n
                     in if is_end result \<and> winner result = c then Some (i, j) else None)) =
              (if wins_at board c n (i, j) then Some (id (i, j)) else None)" for i j
    by (simp add: wins_at_def Let_def)
  have "for_first 0 n (\<lambda>i. for_first 0 n (\<lambda>j.
          if wins_at board c n (i, j) then Some (id (i, j)) else None)) =
        map_option id (find (wins_at board c n) (row_major n))"
    unfolding row_major_def by (rule pass_eq)
  then show ?thesis
    unfolding find_winning_move_def body by (simp add: option.map_id split: option.splits)
qed

text \<open>
  C6. \<^verbatim>\<open>find_winning_move\<close> returns the first cell in row-major order that is empty
  and on which placing the colour makes \<^verbatim>\<open>check_game_end\<close> report an ended game
  won by that colour, and \<open>(-1, -1)\<close> when there is no such cell. On the board of
  side 15 that holds only the four colour-1 stones \<open>(7,4)\<close> to \<open>(7,7)\<close> it returns
  \<open>(7, 3)\<close>, not \<open>(7, 8)\<close>, where colour 1 would win as well.
\<close>

theorem find_winning_move_first_in_row_major:
  "find_winning_move board c n =
     (case find (wins_at board c n) (row_major n) of Some p \<Rightarrow> p | None \<Rightarrow> (- 1, - 1)) \<and>
   find_winning_move board_open_four 1 15 = (7, 3) \<and>
   wins_at board_open_four 1 15 (7, 8)"
proof -
  have "find_winning_move board_open_four 1 15 = (7, 3)" by code_simp
  moreover have "wins_at board_open_four 1 15 (7, 8)" by code_simp
  ultimately show ?thesis by (simp add: find_winning_move_eq)
qed

theorem find_winning_move_first_in_row_major_witness:
  "find (wins_at board_fours 1 5) (row_major 5) = Some (1, 4) \<and>
   find_winning_move board_fours 1 5 = (1, 4) \<and>
   find (wins_at (empty_board 5) 2 5) (row_major 5) = None \<and>
   find_winning_move (empty_board 5) 2 5 = (- 1, - 1)"
proof -
  have a: "find (wins_at board_fours 1 5) (row_major 5) = Some (1, 4)" by code_simp
  have b: "find (wins_at (empty_board 5) 2 5) (row_major 5) = None" by code_simp
  from find_winning_move_first_in_row_major [of board_fours 1 5]
       find_winning_move_first_in_row_major [of "empty_board 5" 2 5] a b
  show ?thesis by simp
qed

end
